theory Spec2Isabelle
  imports Main "HOL-Library.Word"
begin

section \<open>JavaScript strings\<close>

text \<open>
  A JavaScript string is a sequence of 16-bit code units (UTF-16): \<open>length\<close>,
  \<open>slice\<close>, \<open>includes\<close> and \<open>trim\<close> all work on code units, and a JSON
  document may hold unpaired surrogates. Literals are written \<open>js ''abc''\<close>.
\<close>

type_synonym jsstring = "16 word list"

definition js :: "string \<Rightarrow> jsstring" where
  "js s = map of_char s"

text \<open>\<open>String.prototype.trim\<close> strips WhiteSpace and LineTerminator code units.\<close>

definition isWhiteSpace :: "16 word \<Rightarrow> bool" where
  "isWhiteSpace c \<longleftrightarrow>
     (0x9 \<le> c \<and> c \<le> 0xD) \<or> c = 0x20 \<or> c = 0xA0 \<or> c = 0x1680 \<or>
     (0x2000 \<le> c \<and> c \<le> 0x200A) \<or> c = 0x2028 \<or> c = 0x2029 \<or> c = 0x202F \<or>
     c = 0x205F \<or> c = 0x3000 \<or> c = 0xFEFF"

definition trim :: "jsstring \<Rightarrow> jsstring" where
  "trim s = rev (dropWhile isWhiteSpace (rev (dropWhile isWhiteSpace s)))"

text \<open>\<open>String(n)\<close> for a non-negative integer \<open>n\<close> (an array index, a length, a status).\<close>

definition digitChar :: "nat \<Rightarrow> 16 word" where
  "digitChar d = 0x30 + of_nat d"

fun decimal :: "nat \<Rightarrow> jsstring" where
  "decimal n = (if n < 10 then [digitChar n] else decimal (n div 10) @ [digitChar (n mod 10)])"

declare decimal.simps [simp del]

text \<open>\<open>s.startsWith(q)\<close> and \<open>s.includes(q)\<close>.\<close>

fun startsWith :: "jsstring \<Rightarrow> jsstring \<Rightarrow> bool" where
  "startsWith s [] = True"
| "startsWith [] (q # qs) = False"
| "startsWith (c # cs) (q # qs) = (c = q \<and> startsWith cs qs)"

fun includesStr :: "jsstring \<Rightarrow> jsstring \<Rightarrow> bool" where
  "includesStr [] q = (q = [])"
| "includesStr (c # cs) q = (startsWith (c # cs) q \<or> includesStr cs q)"

section \<open>JSON values\<close>

text \<open>
  The values \<open>JSON.parse\<close> returns. Numbers are IEEE doubles whose printing belongs to
  the engine, so the number type is a parameter \<open>'n\<close>. An object is the list of its
  own properties in the order \<open>Object.keys\<close> enumerates them; its keys are distinct.
\<close>

datatype 'n json =
    JNull
  | JBool bool
  | JNum 'n
  | JStr jsstring
  | JArr "'n json list"
  | JObj "(jsstring \<times> 'n json) list"

section \<open>ValueParser: safeJsonParse\<close>

text \<open>
  The result \<open>{ ok: true; value } | { ok: false; error }\<close>. \<open>JSON.parse\<close> is the
  engine's: it is the parameter \<open>jsonParse\<close>, which returns the value (\<open>Inr\<close>) or
  throws an error (\<open>Inl\<close>) whose \<open>message\<close> may be absent.
\<close>

datatype 'a parsed = Ok 'a | Err jsstring

definition safeJsonParse ::
  "(jsstring \<Rightarrow> jsstring option + 'n json) \<Rightarrow> jsstring \<Rightarrow> 'n json parsed" where
  "safeJsonParse jsonParse t =
     (if trim t = [] then Ok JNull
      else case jsonParse t of
             Inr v \<Rightarrow> Ok v
           | Inl e \<Rightarrow> Err (case e of Some m \<Rightarrow> m | None \<Rightarrow> js ''Invalid JSON''))"

text \<open>An example engine parser for concrete runs: it knows the literal \<open>null\<close> only.\<close>

definition demoParse :: "jsstring \<Rightarrow> jsstring option + nat json" where
  "demoParse t =
     (if trim t = js ''null'' then Inr JNull else Inl (Some (js ''Unexpected token'')))"

section \<open>The remote-fetch proxy: GET\<close>

text \<open>
  \<open>new URL(url)\<close> is the parameter \<open>newURL\<close> (\<open>None\<close> when it throws); of the parsed
  URL the handler reads \<open>protocol\<close> and \<open>toString()\<close>. The upstream server is the
  parameter \<open>upstream\<close>: the fetch rejects (a transport failure, or the abort after ten
  seconds), or answers with a status and a body whose reading may reject as well. The
  handler returns its response together with the list of URLs it fetched.
\<close>

record URL =
  protocol :: jsstring
  href :: jsstring

datatype upstream_reply =
    FetchRejects "jsstring option"
  | FetchResponds nat "jsstring option + jsstring"

datatype json_body = ErrorBody jsstring | TextBody jsstring

record response =
  status :: nat
  body :: json_body

definition errorResponse :: "jsstring \<Rightarrow> nat \<Rightarrow> response" where
  "errorResponse msg st = \<lparr>status = st, body = ErrorBody msg\<rparr>"

definition messageOr :: "jsstring option \<Rightarrow> jsstring \<Rightarrow> jsstring" where
  "messageOr e dflt = (case e of Some m \<Rightarrow> m | None \<Rightarrow> dflt)"

definition GET ::
  "(jsstring \<Rightarrow> URL option) \<Rightarrow> (jsstring \<Rightarrow> upstream_reply) \<Rightarrow> jsstring option
     \<Rightarrow> response \<times> jsstring list" where
  "GET newURL upstream url =
     (case url of
        None \<Rightarrow> (errorResponse (js ''Missing url'') 400, [])
      | Some u \<Rightarrow>
          if u = [] then (errorResponse (js ''Missing url'') 400, [])
          else
            (case newURL u of
               None \<Rightarrow> (errorResponse (js ''Invalid url'') 400, [])
             | Some parsed \<Rightarrow>
                 if protocol parsed \<noteq> js ''https:''
                 then (errorResponse (js ''Only https URLs are allowed'') 400, [])
                 else
                   (case upstream (href parsed) of
                      FetchRejects e \<Rightarrow> errorResponse (messageOr e (js ''Fetch failed'')) 502
                    | FetchResponds st txt \<Rightarrow>
                        if \<not> (200 \<le> st \<and> st \<le> 299)
                        then errorResponse (js ''Upstream error: '' @ decimal st) 502
                        else
                          (case txt of
                             Inl e \<Rightarrow> errorResponse (messageOr e (js ''Fetch failed'')) 502
                           | Inr t \<Rightarrow>
                               if 2000000 < length t
                               then errorResponse (js ''Response too large (>2MB)'') 413
                               else \<lparr>status = 200, body = TextBody t\<rparr>),
                    [href parsed])))"

text \<open>An example URL parser for concrete runs: it knows two schemes.\<close>

definition demoURL :: "jsstring \<Rightarrow> URL option" where
  "demoURL u =
     (if startsWith u (js ''https://'') then Some \<lparr>protocol = js ''https:'', href = u\<rparr>
      else if startsWith u (js ''http://'') then Some \<lparr>protocol = js ''http:'', href = u\<rparr>
      else None)"

section \<open>encodeURIComponent\<close>

text \<open>
  \<open>segToPointer\<close> calls the engine's \<open>encodeURIComponent\<close>. It is modelled after
  ECMA-262 (Encode with the unreserved set of \<open>encodeURIComponent\<close>): an unreserved code
  unit is copied; any other code point is written as the \<open>%XX\<close> escapes of its UTF-8
  octets, upper-case hexadecimal; an unpaired surrogate throws URIError (\<open>None\<close>).
\<close>

definition uriUnreserved :: "16 word \<Rightarrow> bool" where
  "uriUnreserved c \<longleftrightarrow>
     (0x41 \<le> c \<and> c \<le> 0x5A) \<or> (0x61 \<le> c \<and> c \<le> 0x7A) \<or> (0x30 \<le> c \<and> c \<le> 0x39) \<or>
     c = 0x2D \<or> c = 0x5F \<or> c = 0x2E \<or> c = 0x21 \<or> c = 0x7E \<or>
     c = 0x2A \<or> c = 0x27 \<or> c = 0x28 \<or> c = 0x29"

definition hexDigit :: "nat \<Rightarrow> 16 word" where
  "hexDigit d = (if d < 10 then 0x30 + of_nat d else 0x37 + of_nat d)"

definition percentByte :: "nat \<Rightarrow> jsstring" where
  "percentByte b = [0x25, hexDigit (b div 16), hexDigit (b mod 16)]"

definition utf8 :: "nat \<Rightarrow> nat list" where
  "utf8 cp =
     (if cp < 0x80 then [cp]
      else if cp < 0x800 then [0xC0 + cp div 0x40, 0x80 + cp mod 0x40]
      else if cp < 0x10000 then
        [0xE0 + cp div 0x1000, 0x80 + cp div 0x40 mod 0x40, 0x80 + cp mod 0x40]
      else
        [0xF0 + cp div 0x40000, 0x80 + cp div 0x1000 mod 0x40, 0x80 + cp div 0x40 mod 0x40,
         0x80 + cp mod 0x40])"

definition escapeCodePoint :: "nat \<Rightarrow> jsstring" where
  "escapeCodePoint cp = concat (map percentByte (utf8 cp))"

definition isLeadSurrogate :: "16 word \<Rightarrow> bool" where
  "isLeadSurrogate c \<longleftrightarrow> 0xD800 \<le> c \<and> c \<le> 0xDBFF"

definition isTrailSurrogate :: "16 word \<Rightarrow> bool" where
  "isTrailSurrogate c \<longleftrightarrow> 0xDC00 \<le> c \<and> c \<le> 0xDFFF"

definition pairCodePoint :: "16 word \<Rightarrow> 16 word \<Rightarrow> nat" where
  "pairCodePoint lead trail = 0x10000 + (unat lead - 0xD800) * 0x400 + (unat trail - 0xDC00)"

fun encodeURIComponent :: "jsstring \<Rightarrow> jsstring option" where
  "encodeURIComponent [] = Some []"
| "encodeURIComponent (c # cs) =
     (if uriUnreserved c then map_option ((#) c) (encodeURIComponent cs)
      else if isLeadSurrogate c then
        (case cs of
           [] \<Rightarrow> None
         | d # ds \<Rightarrow>
             if isTrailSurrogate d
             then map_option ((@) (escapeCodePoint (pairCodePoint c d))) (encodeURIComponent ds)
             else None)
      else if isTrailSurrogate c then None
      else map_option ((@) (escapeCodePoint (unat c))) (encodeURIComponent cs))"

declare encodeURIComponent.simps(2) [simp del]

text \<open>The number of octets a UTF-8 sequence has, read off its first octet.\<close>

definition utf8Length :: "nat \<Rightarrow> nat" where
  "utf8Length lead =
     (if lead < 0x80 then 1 else if lead < 0xE0 then 2 else if lead < 0xF0 then 3 else 4)"

section \<open>PointerModel: segToPointer, pointerFromSegments\<close>

text \<open>
  \<open>type Seg = string | number\<close>: an object key or an array index. \<open>String(seg)\<close> is the
  key itself or the decimal digits of the index. \<open>segs.map(segToPointer)\<close> throws when one
  segment does; \<open>join('/')\<close> puts the separator between the parts.
\<close>

datatype seg = Key jsstring | Idx nat

fun segString :: "seg \<Rightarrow> jsstring" where
  "segString (Key k) = k"
| "segString (Idx i) = decimal i"

definition segToPointer :: "seg \<Rightarrow> jsstring option" where
  "segToPointer sg = encodeURIComponent (segString sg)"

fun joinWith :: "16 word \<Rightarrow> jsstring list \<Rightarrow> jsstring" where
  "joinWith sep [] = []"
| "joinWith sep [x] = x"
| "joinWith sep (x # y # ys) = x @ sep # joinWith sep (y # ys)"

definition pointerFromSegments :: "seg list \<Rightarrow> jsstring option" where
  "pointerFromSegments segs =
     (if length segs = 0 then Some (js ''/'')
      else map_option (\<lambda>ps. js ''/'' @ joinWith 0x2F ps) (those (map segToPointer segs)))"

text \<open>A segment with no surrogate code unit in it: its encoding cannot throw.\<close>

fun noSurrogates :: "seg \<Rightarrow> bool" where
  "noSurrogates (Key k) = list_all (\<lambda>c. \<not> isLeadSurrogate c \<and> \<not> isTrailSurrogate c) k"
| "noSurrogates (Idx i) = True"


text \<open>
  A path addresses a node of a document: an index below the length of an array, a key of
  an object (the way \<open>renderNode\<close> builds \<open>childSegs\<close>).
\<close>

fun validPath :: "'n json \<Rightarrow> seg list \<Rightarrow> bool" where
  "validPath v [] = True"
| "validPath (JArr xs) (Idx i # p) = (i < length xs \<and> validPath (xs ! i) p)"
| "validPath (JObj kvs) (Key k # p) =
     (case map_of kvs k of None \<Rightarrow> False | Some v \<Rightarrow> validPath v p)"
| "validPath v (sg # p) = False"

section \<open>ExpandState: the expanded set of FormViewer\<close>

text \<open>
  A \<open>Set<string>\<close> is the list of its members in insertion order, without repetition:
  \<open>add\<close> appends a new member, \<open>delete\<close> removes one, \<open>size\<close> is the length.
\<close>

definition rootPointer :: jsstring where
  "rootPointer = js ''/''"

definition setAdd :: "jsstring \<Rightarrow> jsstring list \<Rightarrow> jsstring list" where
  "setAdd p s = (if p \<in> set s then s else s @ [p])"

definition setDelete :: "jsstring \<Rightarrow> jsstring list \<Rightarrow> jsstring list" where
  "setDelete p s = removeAll p s"


text \<open>
  \<open>collectExpandablePointers\<close>: the closure \<open>walk\<close> with the set \<open>out\<close> passed along;
  \<open>walkArray\<close> and \<open>walkObject\<close> are its two \<open>for\<close> loops, each with its \<open>break\<close>.
  A value that is not expandable (the last four equations of \<open>walk\<close>) returns at once.
\<close>

fun walk :: "nat \<Rightarrow> 'n json \<Rightarrow> seg list \<Rightarrow> jsstring list \<Rightarrow> jsstring list option"
  and walkArray ::
    "nat \<Rightarrow> 'n json list \<Rightarrow> nat \<Rightarrow> seg list \<Rightarrow> jsstring list \<Rightarrow> jsstring list option"
  and walkObject ::
    "nat \<Rightarrow> (jsstring \<times> 'n json) list \<Rightarrow> seg list \<Rightarrow> jsstring list \<Rightarrow> jsstring list option"
  where
  "walk limit (JArr xs) segs out =
     (if limit \<le> length out then Some out
      else case pointerFromSegments segs of
             None \<Rightarrow> None
           | Some p \<Rightarrow> walkArray limit xs 0 segs (setAdd p out))"
| "walk limit (JObj kvs) segs out =
     (if limit \<le> length out then Some out
      else case pointerFromSegments segs of
             None \<Rightarrow> None
           | Some p \<Rightarrow> walkObject limit kvs segs (setAdd p out))"
| "walk limit JNull segs out = Some out"
| "walk limit (JBool b) segs out = Some out"
| "walk limit (JNum n) segs out = Some out"
| "walk limit (JStr s) segs out = Some out"
| "walkArray limit [] i segs out = Some out"
| "walkArray limit (x # xs) i segs out =
     (case walk limit x (segs @ [Idx i]) out of
        None \<Rightarrow> None
      | Some out' \<Rightarrow>
          if limit \<le> length out' then Some out' else walkArray limit xs (i + 1) segs out')"
| "walkObject limit [] segs out = Some out"
| "walkObject limit ((k, v) # kvs) segs out =
     (case walk limit v (segs @ [Key k]) out of
        None \<Rightarrow> None
      | Some out' \<Rightarrow>
          if limit \<le> length out' then Some out' else walkObject limit kvs segs out')"

definition collectExpandablePointers :: "'n json \<Rightarrow> nat \<Rightarrow> jsstring list option" where
  "collectExpandablePointers root limit = walk limit root [] []"

text \<open>
  The handlers of FormViewer, as functions from the previous set to the next one
  (\<open>setExpanded((prev) => ...)\<close>); \<open>None\<close> when the handler throws. \<open>expandAll\<close> also
  returns whether it showed the toast.
\<close>

definition toggle :: "seg list \<Rightarrow> jsstring list \<Rightarrow> jsstring list option" where
  "toggle segs prev =
     (case pointerFromSegments segs of
        None \<Rightarrow> None
      | Some p \<Rightarrow>
          Some (setAdd rootPointer (if p \<in> set prev then setDelete p prev else setAdd p prev)))"

definition pushPrefixPointer ::
  "seg list \<Rightarrow> nat \<Rightarrow> jsstring list option \<Rightarrow> jsstring list option" where
  "pushPrefixPointer segs i pointers =
     (case pointers of
        None \<Rightarrow> None
      | Some ps \<Rightarrow>
          (case pointerFromSegments (take (i + 1) segs) of
             None \<Rightarrow> None
           | Some p \<Rightarrow> Some (ps @ [p])))"

definition ensureOpen :: "seg list \<Rightarrow> jsstring list \<Rightarrow> jsstring list option" where
  "ensureOpen segs prev =
     (case fold (pushPrefixPointer segs) [0..<length segs] (Some [rootPointer]) of
        None \<Rightarrow> None
      | Some pointers \<Rightarrow> Some (fold setAdd pointers prev))"

definition expandAll :: "'n json \<Rightarrow> (jsstring list \<times> bool) option" where
  "expandAll v =
     (case collectExpandablePointers v 6000 of
        None \<Rightarrow> None
      | Some s \<Rightarrow> Some (setAdd rootPointer s, 6000 \<le> length s))"

definition collapseAll :: "jsstring list" where
  "collapseAll = [rootPointer]"

text \<open>
  A user action on the viewer of a document \<open>v\<close>, and the state after it. A handler that
  throws never reaches \<open>setExpanded\<close>: the state stays as it was.
\<close>

datatype action = Toggle "seg list" | EnsureOpen "seg list" | ExpandAll | CollapseAll

fun step :: "'n json \<Rightarrow> action \<Rightarrow> jsstring list \<Rightarrow> jsstring list" where
  "step v (Toggle segs) s = (case toggle segs s of None \<Rightarrow> s | Some s' \<Rightarrow> s')"
| "step v (EnsureOpen segs) s = (case ensureOpen segs s of None \<Rightarrow> s | Some s' \<Rightarrow> s')"
| "step v ExpandAll s = (case expandAll v of None \<Rightarrow> s | Some (s', capped) \<Rightarrow> s')"
| "step v CollapseAll s = collapseAll"



text \<open>Arrays nested in one another: \<open>nest n\<close> has \<open>n + 1\<close> containers.\<close>

fun nest :: "nat \<Rightarrow> nat json" where
  "nest 0 = JArr []"
| "nest (Suc n) = JArr [nest n]"

section \<open>SearchMatcher: pathJoin, findMatches\<close>

text \<open>
  \<open>toLowerCase\<close> (Unicode case mapping) and \<open>String(number)\<close> are the engine's: they are
  the two fields of the parameter \<open>h\<close>.
\<close>

record 'n host =
  toLowerCase :: "jsstring \<Rightarrow> jsstring"
  numberToString :: "'n \<Rightarrow> jsstring"

datatype matchKind = KeyMatch | ValueMatch

record Match =
  path :: jsstring
  kind :: matchKind
  preview :: jsstring

text \<open>
  \<open>pathJoin\<close>: a number gives \<open>parent[i]\<close>; a key that matches
  \<open>/^[A-Za-z_$][A-Za-z0-9_$]*$/\<close> gives \<open>parent.key\<close> (or the key alone under an empty
  parent); any other key gives \<open>parent["key"]\<close> with every double quote escaped.
\<close>

definition isIdentStart :: "16 word \<Rightarrow> bool" where
  "isIdentStart c \<longleftrightarrow>
     (0x41 \<le> c \<and> c \<le> 0x5A) \<or> (0x61 \<le> c \<and> c \<le> 0x7A) \<or> c = 0x5F \<or> c = 0x24"

definition isIdentPart :: "16 word \<Rightarrow> bool" where
  "isIdentPart c \<longleftrightarrow> isIdentStart c \<or> (0x30 \<le> c \<and> c \<le> 0x39)"

definition isIdentifier :: "jsstring \<Rightarrow> bool" where
  "isIdentifier k = (case k of [] \<Rightarrow> False | c # cs \<Rightarrow> isIdentStart c \<and> list_all isIdentPart cs)"

definition escapeQuotes :: "jsstring \<Rightarrow> jsstring" where
  "escapeQuotes k = concat (map (\<lambda>c. if c = 0x22 then [0x5C, 0x22] else [c]) k)"

fun pathJoin :: "jsstring \<Rightarrow> seg \<Rightarrow> jsstring" where
  "pathJoin parent (Idx i) = parent @ js ''['' @ decimal i @ js '']''"
| "pathJoin parent (Key k) =
     (if isIdentifier k then (if parent \<noteq> [] then parent @ js ''.'' @ k else k)
      else parent @ [0x5B, 0x22] @ escapeQuotes k @ [0x22, 0x5D])"

declare pathJoin.simps [simp del]

definition push :: "nat \<Rightarrow> Match \<Rightarrow> Match list \<Rightarrow> Match list" where
  "push maxMatches m out = (if length out < maxMatches then out @ [m] else out)"

fun summarize :: "'n host \<Rightarrow> 'n json \<Rightarrow> jsstring" where
  "summarize h JNull = js ''null''"
| "summarize h (JStr s) = (if 160 < length s then take 160 s @ [0x2026] else s)"
| "summarize h (JNum n) = numberToString h n"
| "summarize h (JBool b) = (if b then js ''true'' else js ''false'')"
| "summarize h (JArr xs) = js ''Array('' @ decimal (length xs) @ js '')''"
| "summarize h (JObj kvs) = js ''Object('' @ decimal (length kvs) @ js '')''"

text \<open>
  The last two lines of \<open>visit\<close>, reached by a string, a number or a boolean; \<open>str\<close> is
  \<open>String(node)\<close>.
\<close>

definition visitLeaf ::
  "'n host \<Rightarrow> jsstring \<Rightarrow> nat \<Rightarrow> 'n json \<Rightarrow> jsstring \<Rightarrow> jsstring \<Rightarrow> Match list \<Rightarrow> Match list" where
  "visitLeaf h q maxMatches node str p out =
     (let val = toLowerCase h str
      in if includesStr val q
         then push maxMatches \<lparr>path = p, kind = ValueMatch, preview = summarize h node\<rparr> out
         else out)"

text \<open>
  The closure \<open>visit\<close> with the array \<open>out\<close> passed along; \<open>visitArray\<close> is its loop
  over an array (no \<open>break\<close>), \<open>visitObject\<close> its loop over \<open>Object.keys\<close> (with one).
\<close>

fun visit :: "'n host \<Rightarrow> jsstring \<Rightarrow> nat \<Rightarrow> 'n json \<Rightarrow> jsstring \<Rightarrow> Match list \<Rightarrow> Match list"
  and visitArray ::
    "'n host \<Rightarrow> jsstring \<Rightarrow> nat \<Rightarrow> 'n json list \<Rightarrow> nat \<Rightarrow> jsstring \<Rightarrow> Match list \<Rightarrow> Match list"
  and visitObject ::
    "'n host \<Rightarrow> jsstring \<Rightarrow> nat \<Rightarrow> (jsstring \<times> 'n json) list \<Rightarrow> jsstring \<Rightarrow> Match list
       \<Rightarrow> Match list"
  where
  "visit h q mx JNull p out = out"
| "visit h q mx (JArr xs) p out = (if mx \<le> length out then out else visitArray h q mx xs 0 p out)"
| "visit h q mx (JObj kvs) p out = (if mx \<le> length out then out else visitObject h q mx kvs p out)"
| "visit h q mx (JStr s) p out =
     (if mx \<le> length out then out else visitLeaf h q mx (JStr s) s p out)"
| "visit h q mx (JNum n) p out =
     (if mx \<le> length out then out else visitLeaf h q mx (JNum n) (numberToString h n) p out)"
| "visit h q mx (JBool b) p out =
     (if mx \<le> length out then out
      else visitLeaf h q mx (JBool b) (if b then js ''true'' else js ''false'') p out)"
| "visitArray h q mx [] i p out = out"
| "visitArray h q mx (x # xs) i p out =
     visitArray h q mx xs (i + 1) p (visit h q mx x (pathJoin p (Idx i)) out)"
| "visitObject h q mx [] p out = out"
| "visitObject h q mx ((k, v) # kvs) p out =
     (let out1 = (if includesStr (toLowerCase h k) q
                  then push mx \<lparr>path = pathJoin p (Key k), kind = KeyMatch, preview = k\<rparr> out
                  else out);
          out2 = visit h q mx v (pathJoin p (Key k)) out1
      in if mx \<le> length out2 then out2 else visitObject h q mx kvs p out2)"

definition findMatches :: "'n host \<Rightarrow> 'n json \<Rightarrow> jsstring \<Rightarrow> nat \<Rightarrow> Match list" where
  "findMatches h root queryRaw maxMatches =
     (let q = toLowerCase h (trim queryRaw)
      in if q = [] then [] else visit h q maxMatches root [] [])"

text \<open>
  What the specification says a search finds, with no cap, in pre-order: a key match for
  every object key that contains the query, a value match for every string, number or
  boolean whose text contains it; nothing for null, nothing for an array or an object as
  a value.
\<close>

definition leafMatches ::
  "'n host \<Rightarrow> jsstring \<Rightarrow> 'n json \<Rightarrow> jsstring \<Rightarrow> jsstring \<Rightarrow> Match list" where
  "leafMatches h q node str p =
     (if includesStr (toLowerCase h str) q
      then [\<lparr>path = p, kind = ValueMatch, preview = summarize h node\<rparr>] else [])"

definition keyMatches :: "'n host \<Rightarrow> jsstring \<Rightarrow> jsstring \<Rightarrow> jsstring \<Rightarrow> Match list" where
  "keyMatches h q k p =
     (if includesStr (toLowerCase h k) q
      then [\<lparr>path = pathJoin p (Key k), kind = KeyMatch, preview = k\<rparr>] else [])"

fun allMatches :: "'n host \<Rightarrow> jsstring \<Rightarrow> 'n json \<Rightarrow> jsstring \<Rightarrow> Match list"
  and arrayMatches :: "'n host \<Rightarrow> jsstring \<Rightarrow> 'n json list \<Rightarrow> nat \<Rightarrow> jsstring \<Rightarrow> Match list"
  and objectMatches ::
    "'n host \<Rightarrow> jsstring \<Rightarrow> (jsstring \<times> 'n json) list \<Rightarrow> jsstring \<Rightarrow> Match list"
  where
  "allMatches h q JNull p = []"
| "allMatches h q (JArr xs) p = arrayMatches h q xs 0 p"
| "allMatches h q (JObj kvs) p = objectMatches h q kvs p"
| "allMatches h q (JStr s) p = leafMatches h q (JStr s) s p"
| "allMatches h q (JNum n) p = leafMatches h q (JNum n) (numberToString h n) p"
| "allMatches h q (JBool b) p =
     leafMatches h q (JBool b) (if b then js ''true'' else js ''false'') p"
| "arrayMatches h q [] i p = []"
| "arrayMatches h q (x # xs) i p =
     allMatches h q x (pathJoin p (Idx i)) @ arrayMatches h q xs (i + 1) p"
| "objectMatches h q [] p = []"
| "objectMatches h q ((k, v) # kvs) p =
     keyMatches h q k p @ allMatches h q v (pathJoin p (Key k)) @ objectMatches h q kvs p"


text \<open>
  An example engine for concrete runs, with natural numbers for the numbers:
  \<open>toLowerCase\<close> on ASCII letters and the decimal digits of a number. Two example
  documents: the one of the specification's search example, and an object of \<open>n\<close> keys
  \<open>key0\<close>, \<open>key1\<close>, ...
\<close>

definition asciiLower :: "jsstring \<Rightarrow> jsstring" where
  "asciiLower s = map (\<lambda>c. if 0x41 \<le> c \<and> c \<le> 0x5A then c + 0x20 else c) s"

definition demoHost :: "nat host" where
  "demoHost = \<lparr>toLowerCase = asciiLower, numberToString = decimal\<rparr>"

definition exampleDoc :: "nat json" where
  "exampleDoc =
     JObj [(js ''a'', JObj [(js ''bob'', JNum 1)]),
           (js ''list'', JArr [JNum 1, JNum 2, JStr (js ''bob'')])]"


section \<open>Properties of the ValueParser\<close>

lemma dropWhile_all_iff: "(\<forall>x\<in>set (dropWhile P s). P x) \<longleftrightarrow> (\<forall>x\<in>set s. P x)"
  by (induction s) auto

lemma trim_empty_iff: "trim s = [] \<longleftrightarrow> (\<forall>c\<in>set s. isWhiteSpace c)"
  by (simp add: trim_def dropWhile_all_iff)

text \<open>
  Claim C8. \<open>safeJsonParse\<close> applied to an empty or whitespace-only text succeeds with
  the value null, whatever the engine's parser would say of it; on any other text the
  engine's parser rejects, it fails with the message of the error the parser threw; and
  a text the parser accepts yields the parsed value.
\<close>

theorem safeJsonParse_blank_is_null:
  "((\<forall>c\<in>set t. isWhiteSpace c) \<longrightarrow> safeJsonParse P t = Ok JNull) \<and>
   (\<not> (\<forall>c\<in>set t. isWhiteSpace c) \<and> P t = Inl (Some m) \<longrightarrow> safeJsonParse P t = Err m) \<and>
   (\<not> (\<forall>c\<in>set t. isWhiteSpace c) \<and> P t = Inr v \<longrightarrow> safeJsonParse P t = Ok v) \<and>
   safeJsonParse P [] = Ok JNull \<and>
   safeJsonParse P (js ''   '') = Ok JNull"
proof -
  have blank: "trim (js ''   '') = []"
    by (simp add: trim_empty_iff js_def isWhiteSpace_def)
  have "trim [] = []"
    by (simp add: trim_def)
  with blank show ?thesis
    by (simp add: safeJsonParse_def trim_empty_iff [symmetric])
qed

theorem safeJsonParse_blank_is_null_witness:
  "safeJsonParse demoParse [0x20, 0x9, 0xA, 0xFEFF] = Ok JNull \<and>
   safeJsonParse demoParse (js ''{ nope'') = Err (js ''Unexpected token'') \<and>
   safeJsonParse demoParse (js '' null '') = Ok JNull"
proof -
  have ws: "\<forall>c\<in>set [0x20, 0x9, 0xA, 0xFEFF :: 16 word]. isWhiteSpace c"
    by (simp add: isWhiteSpace_def)
  have nws: "\<not> (\<forall>c\<in>set (js ''{ nope''). isWhiteSpace c)"
    by (simp add: js_def isWhiteSpace_def)
  have nws': "\<not> (\<forall>c\<in>set (js '' null ''). isWhiteSpace c)"
    by (simp add: js_def isWhiteSpace_def)
  have t1: "trim (js ''{ nope'') \<noteq> js ''null''"
    by (simp add: js_def trim_def isWhiteSpace_def)
  have t2: "trim (js '' null '') = js ''null''"
    by (simp add: js_def trim_def isWhiteSpace_def)
  have p1: "demoParse (js ''{ nope'') = Inl (Some (js ''Unexpected token''))"
    using t1 by (simp add: demoParse_def)
  have p2: "demoParse (js '' null '') = Inr JNull"
    using t2 by (simp add: demoParse_def)
  show ?thesis
    using safeJsonParse_blank_is_null [of "[0x20, 0x9, 0xA, 0xFEFF]" demoParse]
      safeJsonParse_blank_is_null [of "js ''{ nope''" demoParse "js ''Unexpected token''"]
      safeJsonParse_blank_is_null [of "js '' null ''" demoParse _ JNull]
      ws nws nws' p1 p2
    by simp
qed

section \<open>Properties of the remote-fetch proxy\<close>

text \<open>
  Claim C9. The proxy validates before it fetches: when the \<open>url\<close> parameter is missing
  (or empty), does not parse as a URL, or parses with a protocol other than \<open>https:\<close>,
  the response has status 400 and a body \<open>{error: text}\<close>, and no upstream fetch is made.
\<close>

theorem GET_rejects_before_fetching:
  assumes "url = None \<or> url = Some [] \<or>
           (\<exists>u. url = Some u \<and>
              (newURL u = None \<or> (\<exists>p. newURL u = Some p \<and> protocol p \<noteq> js ''https:'')))"
  shows "status (fst (GET newURL upstream url)) = 400 \<and>
         (\<exists>msg. body (fst (GET newURL upstream url)) = ErrorBody msg) \<and>
         snd (GET newURL upstream url) = []"
  using assms by (auto simp: GET_def errorResponse_def)

theorem GET_rejects_before_fetching_witness:
  "status (fst (GET demoURL (\<lambda>u. FetchResponds 200 (Inr u)) None)) = 400 \<and>
   snd (GET demoURL (\<lambda>u. FetchResponds 200 (Inr u)) None) = [] \<and>
   status (fst (GET demoURL (\<lambda>u. FetchResponds 200 (Inr u)) (Some (js ''not a url'')))) = 400 \<and>
   snd (GET demoURL (\<lambda>u. FetchResponds 200 (Inr u)) (Some (js ''not a url''))) = [] \<and>
   status (fst (GET demoURL (\<lambda>u. FetchResponds 200 (Inr u)) (Some (js ''http://a.example/x'')))) = 400 \<and>
   snd (GET demoURL (\<lambda>u. FetchResponds 200 (Inr u)) (Some (js ''http://a.example/x''))) = []"
proof -
  have bad: "demoURL (js ''not a url'') = None"
    by (simp add: demoURL_def js_def)
  have http: "demoURL (js ''http://a.example/x'') =
      Some \<lparr>protocol = js ''http:'', href = js ''http://a.example/x''\<rparr>"
    by (simp add: demoURL_def js_def)
  have neq: "js ''http:'' \<noteq> js ''https:''"
    by (simp add: js_def)
  show ?thesis
    using GET_rejects_before_fetching [of None demoURL "\<lambda>u. FetchResponds 200 (Inr u)"]
      GET_rejects_before_fetching [of "Some (js ''not a url'')" demoURL "\<lambda>u. FetchResponds 200 (Inr u)"]
      GET_rejects_before_fetching [of "Some (js ''http://a.example/x'')" demoURL "\<lambda>u. FetchResponds 200 (Inr u)"]
      bad http neq
    by simp
qed

text \<open>A request that passes the validation makes one fetch, of the parsed URL.\<close>

lemma GET_fetches_when_valid:
  "u \<noteq> [] \<Longrightarrow> newURL u = Some parsed \<Longrightarrow> protocol parsed = js ''https:'' \<Longrightarrow>
   snd (GET newURL upstream (Some u)) = [href parsed]"
  by (simp add: GET_def)

section \<open>Properties of encodeURIComponent\<close>

text \<open>Hexadecimal digits and the escape of one octet.\<close>

lemma unat_hexDigit: "d < 16 \<Longrightarrow> unat (hexDigit d) = (if d < 10 then 48 + d else 55 + d)"
  by (simp add: hexDigit_def unat_word_ariths unat_of_nat)

lemma hexDigit_inj: "a < 16 \<Longrightarrow> b < 16 \<Longrightarrow> hexDigit a = hexDigit b \<Longrightarrow> a = b"
proof -
  assume a: "a < 16" and b: "b < 16" and e: "hexDigit a = hexDigit b"
  from e have "unat (hexDigit a) = unat (hexDigit b)" by simp
  with a b show "a = b" by (simp add: unat_hexDigit split: if_splits)
qed

lemma div_mod_eqI: "(a::nat) div n = b div n \<Longrightarrow> a mod n = b mod n \<Longrightarrow> a = b"
  by (metis div_mult_mod_eq)

lemma percentByte_append_eq:
  assumes a: "a < 256" and b: "b < 256"
  shows "percentByte a @ r = percentByte b @ s \<longleftrightarrow> a = b \<and> r = s"
proof
  assume e: "percentByte a @ r = percentByte b @ s"
  then have h: "hexDigit (a div 16) = hexDigit (b div 16)"
    and l: "hexDigit (a mod 16) = hexDigit (b mod 16)" and rs: "r = s"
    by (simp_all add: percentByte_def)
  have "a div 16 < 16" "b div 16 < 16" using a b by auto
  with h have "a div 16 = b div 16" by (rule hexDigit_inj [rotated 2])
  moreover have "a mod 16 = b mod 16" using l by (rule hexDigit_inj [rotated 2]) simp_all
  ultimately have "a = b" by (rule div_mod_eqI)
  with rs show "a = b \<and> r = s" by simp
qed auto

text \<open>UTF-8: the first octet tells the length, and the octets tell the code point.\<close>

lemma utf8_shape:
  assumes "cp < 0x110000"
  shows "utf8 cp \<noteq> [] \<and> length (utf8 cp) = utf8Length (hd (utf8 cp)) \<and> (\<forall>b\<in>set (utf8 cp). b < 256)"
proof -
  have m: "x mod 0x40 < 0x80" for x :: nat
  proof -
    have "x mod 0x40 < 0x40" by simp
    then show ?thesis by linarith
  qed
  consider (one) "cp < 0x80" | (two) "0x80 \<le> cp" "cp < 0x800"
    | (three) "0x800 \<le> cp" "cp < 0x10000" | (four) "0x10000 \<le> cp"
    by linarith
  then show ?thesis
  proof cases
    case one
    then show ?thesis by (simp add: utf8_def utf8Length_def)
  next
    case two
    then have "cp div 0x40 < 0x20" by simp
    with two show ?thesis by (simp add: utf8_def utf8Length_def m)
  next
    case three
    then have "cp div 0x1000 < 0x10" by simp
    with three show ?thesis by (simp add: utf8_def utf8Length_def m)
  next
    case four
    have "cp div 0x40000 < 0x8" using assms by simp
    with four show ?thesis by (simp add: utf8_def utf8Length_def m)
  qed
qed

lemma utf8_inj: "utf8 a = utf8 b \<Longrightarrow> a = b"
proof -
  assume e: "utf8 a = utf8 b"
  have two: "x = y" if "x div 0x40 = y div 0x40" "x mod 0x40 = y mod 0x40" for x y :: nat
    using that by (rule div_mod_eqI)
  have three: "x = y"
    if "x div 0x1000 = y div 0x1000" "x div 0x40 mod 0x40 = y div 0x40 mod 0x40" "x mod 0x40 = y mod 0x40"
    for x y :: nat
  proof -
    have "x div 0x40 div 0x40 = y div 0x40 div 0x40"
      using that(1) by (simp add: div_mult2_eq [symmetric])
    then have "x div 0x40 = y div 0x40" using that(2) by (rule div_mod_eqI)
    then show ?thesis using that(3) by (rule div_mod_eqI)
  qed
  have four: "x = y"
    if "x div 0x40000 = y div 0x40000" "x div 0x1000 mod 0x40 = y div 0x1000 mod 0x40"
      "x div 0x40 mod 0x40 = y div 0x40 mod 0x40" "x mod 0x40 = y mod 0x40"
    for x y :: nat
  proof -
    have "x div 0x1000 div 0x40 = y div 0x1000 div 0x40"
      using that(1) by (simp add: div_mult2_eq [symmetric])
    then have "x div 0x1000 = y div 0x1000" using that(2) by (rule div_mod_eqI)
    then show ?thesis using that(3,4) by (rule three)
  qed
  from e show ?thesis
    by (auto simp: utf8_def split: if_splits intro: two three four)
qed

lemma percentBytes_append_eq:
  "length xs = length ys \<Longrightarrow> \<forall>b\<in>set xs. b < 256 \<Longrightarrow> \<forall>b\<in>set ys. b < 256 \<Longrightarrow>
   concat (map percentByte xs) @ r = concat (map percentByte ys) @ s \<Longrightarrow> xs = ys \<and> r = s"
proof (induction xs ys rule: list_induct2)
  case Nil
  then show ?case by simp
next
  case (Cons x xs y ys)
  then show ?case by (simp add: percentByte_append_eq)
qed

lemma escapeCodePoint_append_eq:
  assumes a: "a < 0x110000" and b: "b < 0x110000"
    and e: "escapeCodePoint a @ r = escapeCodePoint b @ s"
  shows "a = b \<and> r = s"
proof -
  from utf8_shape [OF a] obtain x xs where xa: "utf8 a = x # xs"
    and la: "length (utf8 a) = utf8Length x" and ba: "\<forall>b\<in>set (utf8 a). b < 256"
    by (cases "utf8 a") auto
  from utf8_shape [OF b] obtain y ys where yb: "utf8 b = y # ys"
    and lb: "length (utf8 b) = utf8Length y" and bb: "\<forall>b\<in>set (utf8 b). b < 256"
    by (cases "utf8 b") auto
  from e xa yb ba bb have "x = y"
    by (simp add: escapeCodePoint_def percentByte_append_eq)
  with la lb have "length (utf8 a) = length (utf8 b)" by simp
  from percentBytes_append_eq [OF this ba bb] e have "utf8 a = utf8 b" "r = s"
    by (simp_all add: escapeCodePoint_def)
  then show ?thesis by (simp add: utf8_inj)
qed

text \<open>Surrogate pairs.\<close>

lemma le_unatI: "(a :: 16 word) \<le> c \<Longrightarrow> unat a \<le> unat c"
  by (simp only: word_le_nat_alt)

lemma lead_unat: "isLeadSurrogate c \<Longrightarrow> 0xD800 \<le> unat c \<and> unat c \<le> 0xDBFF"
  using le_unatI [of "0xD800" c] le_unatI [of c "0xDBFF"] by (simp add: isLeadSurrogate_def)

lemma trail_unat: "isTrailSurrogate c \<Longrightarrow> 0xDC00 \<le> unat c \<and> unat c \<le> 0xDFFF"
  using le_unatI [of "0xDC00" c] le_unatI [of c "0xDFFF"] by (simp add: isTrailSurrogate_def)

lemma surrogate_pair_range:
  assumes "isLeadSurrogate c" "isTrailSurrogate d"
  shows "0x10000 \<le> pairCodePoint c d \<and> pairCodePoint c d < 0x110000"
proof -
  from lead_unat [OF assms(1)] trail_unat [OF assms(2)]
  show ?thesis unfolding pairCodePoint_def by linarith
qed

lemma pair_arith:
  fixes x y x' y' :: nat
  assumes "y < 0x400" "y' < 0x400" "0x10000 + x * 0x400 + y = 0x10000 + x' * 0x400 + y'"
  shows "x = x' \<and> y = y'"
proof -
  from assms(3) have eq: "x * 0x400 + y = x' * 0x400 + y'" by simp
  then have "(x * 0x400 + y) div 0x400 = (x' * 0x400 + y') div 0x400" by simp
  with assms(1,2) have "x = x'" by simp
  with eq show ?thesis by simp
qed

lemma surrogate_pair_inj:
  assumes "isLeadSurrogate c" "isTrailSurrogate d" "isLeadSurrogate c'" "isTrailSurrogate d'"
    and e: "pairCodePoint c d = pairCodePoint c' d'"
  shows "c = c' \<and> d = d'"
proof -
  note b = lead_unat [OF assms(1)] trail_unat [OF assms(2)]
    lead_unat [OF assms(3)] trail_unat [OF assms(4)]
  have "unat c - 0xD800 = unat c' - 0xD800 \<and> unat d - 0xDC00 = unat d' - 0xDC00"
  proof (rule pair_arith)
    show "unat d - 0xDC00 < 0x400" using b by linarith
    show "unat d' - 0xDC00 < 0x400" using b by linarith
    show "0x10000 + (unat c - 0xD800) * 0x400 + (unat d - 0xDC00) =
          0x10000 + (unat c' - 0xD800) * 0x400 + (unat d' - 0xDC00)"
      using e by (simp only: pairCodePoint_def)
  qed
  with b have "unat c = unat c'" "unat d = unat d'" by linarith+
  then show ?thesis by (simp add: word_unat_eq_iff)
qed

lemma unat_code_unit: "unat (c :: 16 word) < 0x10000"
  using unsigned_less [of c, where ?'a = nat] by simp

text \<open>The encoding is injective where it is defined, and never writes a slash.\<close>

lemma escapeCodePoint_hd:
  assumes "cp < 0x110000"
  shows "\<exists>t. escapeCodePoint cp = 0x25 # t"
proof -
  from utf8_shape [OF assms] obtain x xs where "utf8 cp = x # xs"
    by (cases "utf8 cp") auto
  then show ?thesis by (simp add: escapeCodePoint_def percentByte_def)
qed

lemma percent_not_unreserved: "\<not> uriUnreserved 0x25"
  by (simp add: uriUnreserved_def)

lemma encodeURIComponent_Cons_cases:
  assumes "encodeURIComponent (c # cs) = Some r"
  obtains (plain) r' where "uriUnreserved c" "encodeURIComponent cs = Some r'" "r = c # r'"
  | (single) r' where "\<not> uriUnreserved c" "encodeURIComponent cs = Some r'"
      "r = escapeCodePoint (unat c) @ r'"
  | (pair) d ds r' where "\<not> uriUnreserved c" "isLeadSurrogate c" "isTrailSurrogate d"
      "cs = d # ds" "encodeURIComponent ds = Some r'" "r = escapeCodePoint (pairCodePoint c d) @ r'"
  using assms
  by (subst (asm) encodeURIComponent.simps(2)) (auto split: if_splits list.splits)

lemma encodeURIComponent_Nil_iff: "encodeURIComponent s = Some [] \<longleftrightarrow> s = []"
proof (cases s)
  case Nil
  then show ?thesis by simp
next
  case (Cons c cs)
  have "encodeURIComponent (c # cs) \<noteq> Some []"
  proof
    assume "encodeURIComponent (c # cs) = Some []"
    then show False
    proof (cases rule: encodeURIComponent_Cons_cases)
      case (plain r')
      then show False by simp
    next
      case (single r')
      with escapeCodePoint_hd [of "unat c"] unat_code_unit [of c] show False by auto
    next
      case (pair d ds r')
      with escapeCodePoint_hd [of "pairCodePoint c d"] surrogate_pair_range [of c d]
      show False by auto
    qed
  qed
  with Cons show ?thesis by simp
qed

lemma encodeURIComponent_inj:
  "encodeURIComponent s1 = Some r \<Longrightarrow> encodeURIComponent s2 = Some r \<Longrightarrow> s1 = s2"
proof (induction s1 arbitrary: s2 r rule: length_induct)
  case (1 s1)
  show ?case
  proof (cases s1)
    case Nil
    with "1.prems" show ?thesis by (simp add: encodeURIComponent_Nil_iff)
  next
    case s1: (Cons c cs)
    have "r \<noteq> []"
      using "1.prems"(1) s1 encodeURIComponent_Nil_iff [of s1] by blast
    with "1.prems"(2) obtain c' cs' where s2: "s2 = c' # cs'"
      by (cases s2) auto
    have IH: "t = t'" if "length t < length s1" "encodeURIComponent t = Some q"
      "encodeURIComponent t' = Some q" for t t' q
      using "1.IH" that by blast
    from "1.prems"(1) [unfolded s1] show ?thesis
    proof (cases rule: encodeURIComponent_Cons_cases)
      case a: (plain r1)
      from "1.prems"(2) [unfolded s2] show ?thesis
      proof (cases rule: encodeURIComponent_Cons_cases)
        case b: (plain r2)
        with a have "c = c'" "r1 = r2" by simp_all
        with a b IH [of cs r1 cs'] s1 s2 show ?thesis by simp
      next
        case b: (single r2)
        with a escapeCodePoint_hd [of "unat c'"] unat_code_unit [of c'] percent_not_unreserved
        show ?thesis by auto
      next
        case b: (pair d ds r2)
        with a escapeCodePoint_hd [of "pairCodePoint c' d"] surrogate_pair_range [of c' d]
          percent_not_unreserved
        show ?thesis by auto
      qed
    next
      case a: (single r1)
      from "1.prems"(2) [unfolded s2] show ?thesis
      proof (cases rule: encodeURIComponent_Cons_cases)
        case b: (plain r2)
        with a escapeCodePoint_hd [of "unat c"] unat_code_unit [of c] percent_not_unreserved
        show ?thesis by auto
      next
        case b: (single r2)
        have "unat c < 0x110000" "unat c' < 0x110000"
          using unat_code_unit [of c] unat_code_unit [of c'] by simp_all
        moreover from a b have "escapeCodePoint (unat c) @ r1 = escapeCodePoint (unat c') @ r2"
          by simp
        ultimately have "unat c = unat c' \<and> r1 = r2"
          by (rule escapeCodePoint_append_eq)
        then have "c = c'" "r1 = r2" by (simp_all add: word_unat_eq_iff)
        with a b IH [of cs r1 cs'] s1 s2 show ?thesis by simp
      next
        case b: (pair d ds r2)
        have "unat c < 0x110000" "pairCodePoint c' d < 0x110000"
          using unat_code_unit [of c] surrogate_pair_range [of c' d] b by simp_all
        moreover from a b
        have "escapeCodePoint (unat c) @ r1 = escapeCodePoint (pairCodePoint c' d) @ r2"
          by simp
        ultimately have "unat c = pairCodePoint c' d \<and> r1 = r2"
          by (rule escapeCodePoint_append_eq)
        with unat_code_unit [of c] surrogate_pair_range [of c' d] b show ?thesis by simp
      qed
    next
      case a: (pair d ds r1)
      from "1.prems"(2) [unfolded s2] show ?thesis
      proof (cases rule: encodeURIComponent_Cons_cases)
        case b: (plain r2)
        with a escapeCodePoint_hd [of "pairCodePoint c d"] surrogate_pair_range [of c d]
          percent_not_unreserved
        show ?thesis by auto
      next
        case b: (single r2)
        have "pairCodePoint c d < 0x110000" "unat c' < 0x110000"
          using unat_code_unit [of c'] surrogate_pair_range [of c d] a by simp_all
        moreover from a b
        have "escapeCodePoint (pairCodePoint c d) @ r1 = escapeCodePoint (unat c') @ r2"
          by simp
        ultimately have "pairCodePoint c d = unat c' \<and> r1 = r2"
          by (rule escapeCodePoint_append_eq)
        with unat_code_unit [of c'] surrogate_pair_range [of c d] a show ?thesis by simp
      next
        case b: (pair d' ds' r2)
        have "pairCodePoint c d < 0x110000" "pairCodePoint c' d' < 0x110000"
          using surrogate_pair_range [of c d] surrogate_pair_range [of c' d'] a b by simp_all
        moreover from a b
        have "escapeCodePoint (pairCodePoint c d) @ r1 = escapeCodePoint (pairCodePoint c' d') @ r2"
          by simp
        ultimately have "pairCodePoint c d = pairCodePoint c' d' \<and> r1 = r2"
          by (rule escapeCodePoint_append_eq)
        then have "pairCodePoint c d = pairCodePoint c' d'" "r1 = r2"
          by simp_all
        with surrogate_pair_inj [of c d c' d'] a b have "c = c'" "d = d'" by simp_all
        with a b IH [of ds r1 ds'] \<open>r1 = r2\<close> s1 s2 show ?thesis by simp
      qed
    qed
  qed
qed

lemma hexDigit_not_slash: "d < 16 \<Longrightarrow> hexDigit d \<noteq> 0x2F"
proof
  assume d: "d < 16" and "hexDigit d = 0x2F"
  then have "unat (hexDigit d) = unat (0x2F :: 16 word)" by simp
  with d show False by (simp add: unat_hexDigit split: if_splits)
qed

lemma percentByte_no_slash: "b < 256 \<Longrightarrow> 0x2F \<notin> set (percentByte b)"
proof -
  assume "b < 256"
  then have "b div 16 < 16" "b mod 16 < 16" by simp_all
  then have "hexDigit (b div 16) \<noteq> 0x2F" "hexDigit (b mod 16) \<noteq> 0x2F"
    by (simp_all only: hexDigit_not_slash not_False_eq_True)
  then show ?thesis by (simp add: percentByte_def)
qed

lemma escapeCodePoint_no_slash:
  assumes "cp < 0x110000"
  shows "0x2F \<notin> set (escapeCodePoint cp)"
  using utf8_shape [OF assms] by (auto simp: escapeCodePoint_def dest: percentByte_no_slash)

lemma slash_not_unreserved: "\<not> uriUnreserved 0x2F"
  by (simp add: uriUnreserved_def)

lemma encodeURIComponent_no_slash:
  "encodeURIComponent s = Some r \<Longrightarrow> 0x2F \<notin> set r"
proof (induction s arbitrary: r rule: length_induct)
  case (1 s)
  show ?case
  proof (cases s)
    case Nil
    with "1.prems" show ?thesis by simp
  next
    case (Cons c cs)
    from "1.prems" [unfolded Cons] show ?thesis
    proof (cases rule: encodeURIComponent_Cons_cases)
      case (plain r')
      with "1.IH" [rule_format, of cs r'] Cons slash_not_unreserved show ?thesis by auto
    next
      case (single r')
      with "1.IH" [rule_format, of cs r'] Cons escapeCodePoint_no_slash [of "unat c"]
        unat_code_unit [of c]
      show ?thesis by auto
    next
      case (pair d ds r')
      with "1.IH" [rule_format, of ds r'] Cons escapeCodePoint_no_slash [of "pairCodePoint c d"]
        surrogate_pair_range [of c d]
      show ?thesis by auto
    qed
  qed
qed

text \<open>It is defined on every string without surrogates, and copies decimal digits.\<close>

lemma encodeURIComponent_no_surrogates:
  "\<forall>c\<in>set s. \<not> isLeadSurrogate c \<and> \<not> isTrailSurrogate c \<Longrightarrow> encodeURIComponent s \<noteq> None"
  by (induction s) (simp_all add: encodeURIComponent.simps(2))

lemma encodeURIComponent_unreserved:
  "\<forall>c\<in>set s. uriUnreserved c \<Longrightarrow> encodeURIComponent s = Some s"
  by (induction s) (simp_all add: encodeURIComponent.simps(2))

lemma unat_digitChar: "d < 10 \<Longrightarrow> unat (digitChar d) = 48 + d"
  by (simp add: digitChar_def unat_word_ariths unat_of_nat)

lemma digitChar_inj: "a < 10 \<Longrightarrow> b < 10 \<Longrightarrow> digitChar a = digitChar b \<Longrightarrow> a = b"
proof -
  assume a: "a < 10" and b: "b < 10" and e: "digitChar a = digitChar b"
  from e have "unat (digitChar a) = unat (digitChar b)" by simp
  with a b show "a = b" by (simp add: unat_digitChar)
qed

lemma digitChar_unreserved: "d < 10 \<Longrightarrow> uriUnreserved (digitChar d)"
proof -
  assume "d < 10"
  then have "d \<in> {0, 1, 2, 3, 4, 5, 6, 7, 8, 9}" by auto
  then show ?thesis by (auto simp: digitChar_def uriUnreserved_def)
qed

lemma decimal_not_Nil: "decimal n \<noteq> []"
  by (subst decimal.simps) simp

lemma decimal_inj: "decimal n = decimal m \<Longrightarrow> n = m"
proof (induction n arbitrary: m rule: less_induct)
  case (less n)
  show ?case
  proof (cases "n < 10")
    case n: True
    show ?thesis
    proof (cases "m < 10")
      case True
      with n less.prems show ?thesis
        by (simp add: decimal.simps [of n] decimal.simps [of m] digitChar_inj)
    next
      case False
      with n less.prems decimal_not_Nil [of "m div 10"] show ?thesis
        by (simp add: decimal.simps [of n] decimal.simps [of m])
    qed
  next
    case n: False
    show ?thesis
    proof (cases "m < 10")
      case True
      with n less.prems decimal_not_Nil [of "n div 10"] show ?thesis
        by (simp add: decimal.simps [of n] decimal.simps [of m])
    next
      case False
      with n less.prems have "decimal (n div 10) = decimal (m div 10)"
        and d: "digitChar (n mod 10) = digitChar (m mod 10)"
        by (simp_all add: decimal.simps [of n] decimal.simps [of m])
      with less.IH [of "n div 10" "m div 10"] n have "n div 10 = m div 10" by simp
      moreover from d have "n mod 10 = m mod 10" by (rule digitChar_inj [rotated 2]) simp_all
      ultimately show ?thesis by (rule div_mod_eqI)
    qed
  qed
qed

lemma decimal_unreserved: "\<forall>c\<in>set (decimal n). uriUnreserved c"
proof (induction n rule: less_induct)
  case (less n)
  show ?case
  proof (cases "n < 10")
    case True
    then show ?thesis by (simp add: decimal.simps [of n] digitChar_unreserved)
  next
    case False
    with less [of "n div 10"] show ?thesis
      by (simp add: decimal.simps [of n] digitChar_unreserved)
  qed
qed

lemma segToPointer_Idx: "segToPointer (Idx i) = Some (decimal i)"
  by (simp add: segToPointer_def encodeURIComponent_unreserved decimal_unreserved)

lemma segToPointer_noSurrogates: "noSurrogates sg \<Longrightarrow> segToPointer sg \<noteq> None"
proof (cases sg)
  case (Key k)
  assume "noSurrogates sg"
  with Key have "\<forall>c\<in>set k. \<not> isLeadSurrogate c \<and> \<not> isTrailSurrogate c"
    by (simp add: list_all_iff)
  from encodeURIComponent_no_surrogates [OF this] Key show ?thesis
    by (simp add: segToPointer_def)
next
  case (Idx i)
  then show ?thesis by (simp add: segToPointer_Idx)
qed

section \<open>Properties of the PointerModel\<close>

lemma split_at_separator:
  "sep \<notin> set x \<Longrightarrow> sep \<notin> set y \<Longrightarrow> x @ sep # t = y @ sep # t' \<Longrightarrow> x = y \<and> t = t'"
proof (induction x arbitrary: y)
  case Nil
  then show ?case by (cases y) auto
next
  case (Cons a x)
  then show ?case by (cases y) auto
qed

lemma joinWith_Cons: "ys \<noteq> [] \<Longrightarrow> joinWith sep (x # ys) = x @ sep # joinWith sep ys"
  by (cases ys) simp_all

lemma joinWith_inj:
  "\<forall>x\<in>set xs. sep \<notin> set x \<Longrightarrow> \<forall>y\<in>set ys. sep \<notin> set y \<Longrightarrow> xs \<noteq> [] \<Longrightarrow> ys \<noteq> [] \<Longrightarrow>
   joinWith sep xs = joinWith sep ys \<Longrightarrow> xs = ys"
proof (induction xs arbitrary: ys)
  case Nil
  then show ?case by simp
next
  case (Cons x xs)
  from Cons.prems obtain y ys' where ys: "ys = y # ys'" by (cases ys) auto
  show ?case
  proof (cases "xs = []")
    case xs: True
    show ?thesis
    proof (cases "ys' = []")
      case True
      with xs ys Cons.prems show ?thesis by simp
    next
      case False
      with xs ys Cons.prems have "x = y @ sep # joinWith sep ys'"
        by (simp add: joinWith_Cons)
      with Cons.prems show ?thesis by auto
    qed
  next
    case xs: False
    show ?thesis
    proof (cases "ys' = []")
      case True
      with xs ys Cons.prems have "y = x @ sep # joinWith sep xs"
        by (simp add: joinWith_Cons)
      with Cons.prems ys show ?thesis by auto
    next
      case False
      with xs ys Cons.prems have e: "x @ sep # joinWith sep xs = y @ sep # joinWith sep ys'"
        by (simp add: joinWith_Cons)
      have nx: "sep \<notin> set x" and ny: "sep \<notin> set y" using Cons.prems ys by auto
      from split_at_separator [OF nx ny e] have "x = y" "joinWith sep xs = joinWith sep ys'"
        by simp_all
      with Cons.IH [of ys'] Cons.prems ys xs False show ?thesis by auto
    qed
  qed
qed

lemma those_map_Some:
  "those (map f xs) = Some ys \<Longrightarrow> length ys = length xs \<and> (\<forall>i<length xs. f (xs ! i) = Some (ys ! i))"
proof (induction xs arbitrary: ys)
  case Nil
  then show ?case by simp
next
  case (Cons x xs)
  then show ?case
    by (auto split: option.splits simp: nth_Cons split: nat.splits)
qed

lemma those_map_total: "(\<forall>x\<in>set xs. f x \<noteq> None) \<Longrightarrow> those (map f xs) \<noteq> None"
  by (induction xs) auto

lemma those_segToPointer_inj:
  assumes "those (map segToPointer p1) = Some ps" "those (map segToPointer p2) = Some ps"
  shows "map segString p1 = map segString p2"
proof (rule nth_equalityI)
  from assms show "length (map segString p1) = length (map segString p2)"
    by (auto dest!: those_map_Some)
next
  fix i assume "i < length (map segString p1)"
  with assms have "segToPointer (p1 ! i) = Some (ps ! i)" "segToPointer (p2 ! i) = Some (ps ! i)"
    "i < length p1" "i < length p2"
    by (auto dest!: those_map_Some)
  then show "map segString p1 ! i = map segString p2 ! i"
    by (auto simp: segToPointer_def dest: encodeURIComponent_inj)
qed

lemma those_segToPointer_no_slash:
  "those (map segToPointer p) = Some ps \<Longrightarrow> \<forall>x\<in>set ps. 0x2F \<notin> set x"
proof (induction p arbitrary: ps)
  case Nil
  then show ?case by simp
next
  case (Cons a p)
  then show ?case
    by (auto split: option.splits simp: segToPointer_def dest: encodeURIComponent_no_slash)
qed

lemma pointerFromSegments_Nil: "pointerFromSegments [] = Some rootPointer"
  by (simp add: pointerFromSegments_def rootPointer_def)

lemma pointerFromSegments_total:
  "(\<forall>sg\<in>set segs. segToPointer sg \<noteq> None) \<Longrightarrow> pointerFromSegments segs \<noteq> None"
  using those_map_total [of segs segToPointer] by (auto simp: pointerFromSegments_def)


lemma pointer_collision_shape:
  assumes "pointerFromSegments p1 = Some r" "pointerFromSegments p2 = Some r"
    and "p1 \<noteq> [Key []]" "p2 \<noteq> [Key []]"
  shows "map segString p1 = map segString p2"
proof -
  have root_only: "p = []"
    if "pointerFromSegments p = Some (js ''/'')" "p \<noteq> [Key []]" for p
  proof (rule ccontr)
    assume "p \<noteq> []"
    with that(1) obtain ps where ps: "those (map segToPointer p) = Some ps" "joinWith 0x2F ps = []"
      by (auto simp: pointerFromSegments_def js_def)
    from ps(1) have len: "length ps = length p" by (auto dest!: those_map_Some)
    with \<open>p \<noteq> []\<close> obtain x xs where x: "ps = x # xs" by (cases ps) auto
    have "xs = []"
    proof (rule ccontr)
      assume "xs \<noteq> []"
      with ps(2) x show False by (simp add: joinWith_Cons)
    qed
    with ps(2) x have "ps = [[]]" by simp
    with len obtain sg where p: "p = [sg]"
      by (cases p) auto
    with ps(1) \<open>ps = [[]]\<close> have sg: "segToPointer sg = Some []"
      by (auto split: option.splits)
    then have "segString sg = []"
      by (simp add: segToPointer_def encodeURIComponent_Nil_iff)
    then have "sg = Key []" by (cases sg) (simp_all add: decimal_not_Nil)
    with p that(2) show False by simp
  qed
  show ?thesis
  proof (cases "p1 = [] \<or> p2 = []")
    case True
    then have "r = js ''/''" using assms(1,2) by (auto simp: pointerFromSegments_def)
    with assms root_only have "p1 = []" "p2 = []" by simp_all
    then show ?thesis by simp
  next
    case False
    with assms(1,2) obtain ps1 ps2 where ps:
      "those (map segToPointer p1) = Some ps1" "those (map segToPointer p2) = Some ps2"
      "joinWith 0x2F ps1 = joinWith 0x2F ps2"
      by (auto simp: pointerFromSegments_def)
    from ps(1,2) False have "ps1 \<noteq> []" "ps2 \<noteq> []" by (auto dest!: those_map_Some)
    with ps those_segToPointer_no_slash [of p1 ps1] those_segToPointer_no_slash [of p2 ps2]
    have "ps1 = ps2" by (intro joinWith_inj [of ps1 "0x2F" ps2]) auto
    with ps show ?thesis by (auto intro: those_segToPointer_inj)
  qed
qed

lemma validPath_text_inj:
  "validPath v p1 \<Longrightarrow> validPath v p2 \<Longrightarrow> map segString p1 = map segString p2 \<Longrightarrow> p1 = p2"
proof (induction v p1 arbitrary: p2 rule: validPath.induct)
  case (1 v)
  then show ?case by simp
next
  case (2 xs i p)
  from "2.prems"(3) obtain sg p' where p2: "p2 = sg # p'" by (cases p2) auto
  with "2.prems"(2) obtain j where sg: "sg = Idx j" by (cases sg) auto
  with p2 "2.prems"(3) have "i = j" by (simp add: decimal_inj)
  with "2.IH" [of p'] "2.prems" p2 sg show ?case by simp
next
  case (3 kvs k p)
  from "3.prems"(3) obtain sg p' where p2: "p2 = sg # p'" by (cases p2) auto
  with "3.prems"(2) obtain k' where sg: "sg = Key k'" by (cases sg) auto
  with p2 "3.prems"(3) have "k = k'" by simp
  with "3.IH" [of _ p'] "3.prems" p2 sg show ?case
    by (auto split: option.splits)
qed simp_all

lemmas pointer_eval =
  pointerFromSegments_def segToPointer_def encodeURIComponent.simps(2) uriUnreserved_def
  isLeadSurrogate_def isTrailSurrogate_def escapeCodePoint_def utf8_def percentByte_def
  hexDigit_def decimal.simps digitChar_def js_def

text \<open>
  Claim C1, amended. The empty path has the pointer \<open>/\<close>. Two paths whose pointers are
  defined (no segment holds an unpaired surrogate) and of which neither is the path of the
  single empty key have different pointers whenever they differ in the text \<open>String(seg)\<close>
  of a segment; in particular whenever they are distinct paths to nodes of one document.
\<close>

theorem pointer_injective_on_segment_text:
  "pointerFromSegments [] = Some (js ''/'') \<and>
   (\<forall>p1 p2 r1 r2.
      map segString p1 \<noteq> map segString p2 \<and> p1 \<noteq> [Key []] \<and> p2 \<noteq> [Key []] \<and>
      pointerFromSegments p1 = Some r1 \<and> pointerFromSegments p2 = Some r2 \<longrightarrow> r1 \<noteq> r2) \<and>
   (\<forall>(v :: 'n json) p1 p2 r1 r2.
      validPath v p1 \<and> validPath v p2 \<and> p1 \<noteq> p2 \<and> p1 \<noteq> [Key []] \<and> p2 \<noteq> [Key []] \<and>
      pointerFromSegments p1 = Some r1 \<and> pointerFromSegments p2 = Some r2 \<longrightarrow> r1 \<noteq> r2)"
proof (intro conjI allI impI)
  show "pointerFromSegments [] = Some (js ''/'')"
    by (simp add: pointerFromSegments_def)
next
  fix p1 p2 r1 r2
  assume "map segString p1 \<noteq> map segString p2 \<and> p1 \<noteq> [Key []] \<and> p2 \<noteq> [Key []] \<and>
      pointerFromSegments p1 = Some r1 \<and> pointerFromSegments p2 = Some r2"
  then show "r1 \<noteq> r2" using pointer_collision_shape [of p1 r1 p2] by blast
next
  fix v :: "'n json" and p1 p2 r1 r2
  assume a: "validPath v p1 \<and> validPath v p2 \<and> p1 \<noteq> p2 \<and> p1 \<noteq> [Key []] \<and> p2 \<noteq> [Key []] \<and>
      pointerFromSegments p1 = Some r1 \<and> pointerFromSegments p2 = Some r2"
  then have "map segString p1 \<noteq> map segString p2"
    using validPath_text_inj [of v p1 p2] by blast
  with a show "r1 \<noteq> r2" using pointer_collision_shape [of p1 r1 p2] by blast
qed

theorem pointer_injective_on_segment_text_witness:
  "pointerFromSegments [Key (js ''a''), Idx 1] = Some (js ''/a/1'') \<and>
   pointerFromSegments [Key (js ''a''), Idx 2] = Some (js ''/a/2'') \<and>
   validPath (JObj [(js ''a'', JArr [JNull, JBool True, JNum (7::nat)])]) [Key (js ''a''), Idx 1] \<and>
   validPath (JObj [(js ''a'', JArr [JNull, JBool True, JNum (7::nat)])]) [Key (js ''a''), Idx 2] \<and>
   js ''/a/1'' \<noteq> js ''/a/2''"
proof -
  have p1: "pointerFromSegments [Key (js ''a''), Idx 1] = Some (js ''/a/1'')"
    by (simp add: pointer_eval)
  have p2: "pointerFromSegments [Key (js ''a''), Idx 2] = Some (js ''/a/2'')"
    by (simp add: pointer_eval)
  have v1: "validPath (JObj [(js ''a'', JArr [JNull, JBool True, JNum (7::nat)])]) [Key (js ''a''), Idx 1]"
    by simp
  have v2: "validPath (JObj [(js ''a'', JArr [JNull, JBool True, JNum (7::nat)])]) [Key (js ''a''), Idx 2]"
    by simp
  from pointer_injective_on_segment_text [where 'n = nat, THEN conjunct2, THEN conjunct2, rule_format,
      of "JObj [(js ''a'', JArr [JNull, JBool True, JNum (7::nat)])]" "[Key (js ''a''), Idx 1]"
        "[Key (js ''a''), Idx 2]" "js ''/a/1''" "js ''/a/2''"]
    p1 p2 v1 v2
  show ?thesis by simp
qed

text \<open>
  For any two distinct paths the claim does not hold: the index 0 and the key \<open>0\<close> have
  the same pointer \<open>/0\<close>, since \<open>segToPointer\<close> encodes \<open>String(seg)\<close>; and the path
  of the single empty key has the pointer \<open>/\<close> of the root.
\<close>

theorem pointer_collisions:
  "pointerFromSegments [Idx 0] = Some (js ''/0'') \<and>
   pointerFromSegments [Key (js ''0'')] = Some (js ''/0'') \<and>
   [Idx 0] \<noteq> [Key (js ''0'')] \<and>
   pointerFromSegments [Key []] = Some (js ''/'') \<and>
   pointerFromSegments [] = Some (js ''/'') \<and>
   [Key []] \<noteq> ([] :: seg list)"
  by (simp add: pointer_eval)

section \<open>Properties of the ExpandState\<close>

lemma set_setAdd [simp]: "set (setAdd p s) = insert p (set s)"
  by (auto simp: setAdd_def)

lemma set_fold_setAdd: "set (fold setAdd ps s) = set ps \<union> set s"
  by (induction ps arbitrary: s) auto

lemma distinct_setAdd: "distinct s \<Longrightarrow> distinct (setAdd p s)"
  by (simp add: setAdd_def)




subsection \<open>ensureOpen\<close>

lemma pushPrefixPointer_None: "pushPrefixPointer segs i None = None"
  by (simp add: pushPrefixPointer_def)

lemma pushPrefixPointer_Some:
  "pushPrefixPointer segs i (Some ps) =
     (case pointerFromSegments (take (i + 1) segs) of None \<Rightarrow> None | Some p \<Rightarrow> Some (ps @ [p]))"
  by (simp add: pushPrefixPointer_def)

lemma fold_pushPrefixPointer_None: "fold (pushPrefixPointer segs) is None = None"
  by (induction "is") (simp_all add: pushPrefixPointer_None)

lemma fold_pushPrefixPointer_Some:
  "fold (pushPrefixPointer segs) is (Some acc) = Some ps \<Longrightarrow>
   \<exists>qs. ps = acc @ qs \<and> length qs = length is \<and>
     (\<forall>k<length is. pointerFromSegments (take (is ! k + 1) segs) = Some (qs ! k))"
proof (induction "is" arbitrary: acc ps)
  case Nil
  then show ?case by simp
next
  case (Cons i "is")
  from Cons.prems obtain p where p: "pointerFromSegments (take (i + 1) segs) = Some p"
    and rest: "fold (pushPrefixPointer segs) is (Some (acc @ [p])) = Some ps"
    by (cases "pointerFromSegments (take (i + 1) segs)")
      (simp_all add: pushPrefixPointer_Some fold_pushPrefixPointer_None)
  from Cons.IH [OF rest] obtain qs where qs: "ps = (acc @ [p]) @ qs" "length qs = length is"
    "\<forall>k<length is. pointerFromSegments (take (is ! k + 1) segs) = Some (qs ! k)"
    by blast
  show ?case
  proof (intro exI conjI allI impI)
    show "ps = acc @ (p # qs)" using qs(1) by simp
    show "length (p # qs) = length (i # is)" using qs(2) by simp
    fix k assume "k < length (i # is)"
    then show "pointerFromSegments (take ((i # is) ! k + 1) segs) = Some ((p # qs) ! k)"
      using p qs(3) by (cases k) auto
  qed
qed

lemma ensureOpen_prefixes:
  assumes "ensureOpen segs prev = Some nxt" and n: "n \<le> length segs"
  shows "\<exists>p. pointerFromSegments (take n segs) = Some p \<and> p \<in> set nxt"
proof -
  from assms(1) obtain ps where ps:
    "fold (pushPrefixPointer segs) [0..<length segs] (Some [rootPointer]) = Some ps"
    and nxt: "nxt = fold setAdd ps prev"
    by (auto simp: ensureOpen_def split: option.splits)
  from fold_pushPrefixPointer_Some [OF ps] obtain qs where qs: "ps = [rootPointer] @ qs"
    "length qs = length segs"
    "\<forall>k<length segs. pointerFromSegments (take ([0..<length segs] ! k + 1) segs) = Some (qs ! k)"
    by auto
  show ?thesis
  proof (cases n)
    case 0
    then show ?thesis using qs(1) nxt
      by (auto simp: pointerFromSegments_Nil set_fold_setAdd)
  next
    case (Suc k)
    with n have k: "k < length segs" by simp
    with qs(3) have "pointerFromSegments (take (k + 1) segs) = Some (qs ! k)" by simp
    moreover have "qs ! k \<in> set nxt" using k qs(1,2) nxt by (simp add: set_fold_setAdd)
    ultimately show ?thesis using Suc by auto
  qed
qed

lemma fold_pushPrefixPointer_total:
  "\<forall>i\<in>set is. pointerFromSegments (take (i + 1) segs) \<noteq> None \<Longrightarrow>
   fold (pushPrefixPointer segs) is (Some acc) \<noteq> None"
proof (induction "is" arbitrary: acc)
  case Nil
  then show ?case by simp
next
  case (Cons i "is")
  then show ?case by (auto simp: pushPrefixPointer_Some)
qed

lemma ensureOpen_total:
  assumes "\<forall>sg\<in>set segs. segToPointer sg \<noteq> None"
  shows "ensureOpen segs prev \<noteq> None"
proof -
  have "pointerFromSegments (take (i + 1) segs) \<noteq> None" for i
    using assms by (intro pointerFromSegments_total) (auto dest: in_set_takeD)
  then have "fold (pushPrefixPointer segs) [0..<length segs] (Some [rootPointer]) \<noteq> None"
    by (intro fold_pushPrefixPointer_total) simp
  then show ?thesis by (auto simp: ensureOpen_def)
qed

lemmas ensureOpen_eval =
  ensureOpen_def pushPrefixPointer_def setAdd_def rootPointer_def upt_rec [of 0 2]
  upt_rec [of 1 2] upt_rec [of 2 2]

text \<open>
  Claim C6. After \<open>ensureOpen(path)\<close> the pointer of every prefix of the path, the root
  included, is a member of the expanded set (and nothing that was open is closed). The
  handler returns whenever no segment of the path makes \<open>encodeURIComponent\<close> throw, as
  when no key of the path holds a surrogate code unit.
\<close>

theorem ensureOpen_opens_every_prefix:
  "((\<forall>sg\<in>set segs. noSurrogates sg) \<longrightarrow> (\<exists>nxt. ensureOpen segs prev = Some nxt)) \<and>
   ((\<forall>sg\<in>set segs. segToPointer sg \<noteq> None) \<longrightarrow> (\<exists>nxt. ensureOpen segs prev = Some nxt)) \<and>
   (\<forall>nxt. ensureOpen segs prev = Some nxt \<longrightarrow>
      set prev \<subseteq> set nxt \<and>
      (\<forall>n\<le>length segs. \<exists>p. pointerFromSegments (take n segs) = Some p \<and> p \<in> set nxt))"
proof (intro conjI allI impI)
  assume "\<forall>sg\<in>set segs. noSurrogates sg"
  then have "\<forall>sg\<in>set segs. segToPointer sg \<noteq> None"
    by (simp add: segToPointer_noSurrogates)
  from ensureOpen_total [OF this, of prev] show "\<exists>nxt. ensureOpen segs prev = Some nxt"
    by auto
next
  assume "\<forall>sg\<in>set segs. segToPointer sg \<noteq> None"
  from ensureOpen_total [OF this, of prev] show "\<exists>nxt. ensureOpen segs prev = Some nxt"
    by auto
next
  fix nxt assume "ensureOpen segs prev = Some nxt"
  then show "set prev \<subseteq> set nxt"
    by (auto simp: ensureOpen_def set_fold_setAdd split: option.splits)
next
  fix nxt n assume "ensureOpen segs prev = Some nxt" "n \<le> length segs"
  then show "\<exists>p. pointerFromSegments (take n segs) = Some p \<and> p \<in> set nxt"
    by (rule ensureOpen_prefixes)
qed

theorem ensureOpen_opens_every_prefix_witness:
  "ensureOpen [Key (js ''a''), Idx 2] [js ''/'', js ''/b''] =
     Some [js ''/'', js ''/b'', js ''/a'', js ''/a/2''] \<and>
   pointerFromSegments (take 0 [Key (js ''a''), Idx 2]) = Some (js ''/'') \<and>
   pointerFromSegments (take 1 [Key (js ''a''), Idx 2]) = Some (js ''/a'') \<and>
   pointerFromSegments (take 2 [Key (js ''a''), Idx 2]) = Some (js ''/a/2'')"
proof -
  have e: "ensureOpen [Key (js ''a''), Idx 2] [js ''/'', js ''/b''] =
     Some [js ''/'', js ''/b'', js ''/a'', js ''/a/2'']"
    by (simp add: ensureOpen_eval pointer_eval)
  have "\<forall>sg\<in>set [Key (js ''a''), Idx 2]. noSurrogates sg"
    by (simp add: js_def isLeadSurrogate_def isTrailSurrogate_def)
  with ensureOpen_opens_every_prefix [of "[Key (js ''a''), Idx 2]" "[js ''/'', js ''/b'']"] e
  show ?thesis by (simp add: pointer_eval)
qed

subsection \<open>collectExpandablePointers and expandAll\<close>




















subsection \<open>The root stays open\<close>

lemma root_in_toggle: "toggle segs s = Some s' \<Longrightarrow> rootPointer \<in> set s'"
  by (auto simp: toggle_def split: option.splits)

lemma root_in_ensureOpen: "ensureOpen segs s = Some s' \<Longrightarrow> rootPointer \<in> set s'"
  using ensureOpen_prefixes [of segs s s' 0] by (simp add: pointerFromSegments_Nil)

lemma root_in_expandAll: "expandAll v = Some (s', capped) \<Longrightarrow> rootPointer \<in> set s'"
  by (auto simp: expandAll_def split: option.splits)

lemma root_in_step: "rootPointer \<in> set s \<Longrightarrow> rootPointer \<in> set (step v a s)"
  by (cases a)
    (auto simp: collapseAll_def split: option.splits
      dest: root_in_toggle root_in_ensureOpen root_in_expandAll)

lemma root_in_run: "rootPointer \<in> set s \<Longrightarrow> rootPointer \<in> set (fold (step v) acts s)"
  by (induction acts arbitrary: s) (simp_all add: root_in_step)

lemma toggle_root:
  "\<exists>s'. toggle [] s = Some s' \<and> rootPointer \<in> set s' \<and> (rootPointer \<in> set s \<longrightarrow> set s' = set s)"
  by (auto simp: toggle_def pointerFromSegments_Nil setDelete_def)

text \<open>
  Claim C10. From the initial set \<open>{/}\<close>, after any sequence of toggle, ensureOpen,
  expandAll and collapseAll the root pointer is a member of the expanded set. Toggling the
  root path itself returns a set that holds the root, with the same members as before when
  the root was open.
\<close>

theorem root_always_expanded:
  "rootPointer \<in> set (fold (step v) acts [rootPointer]) \<and>
   (\<exists>s'. toggle [] s = Some s' \<and> rootPointer \<in> set s' \<and>
      (rootPointer \<in> set s \<longrightarrow> set s' = set s))"
  using root_in_run [of "[rootPointer]" v acts] toggle_root [of s] by simp

theorem root_always_expanded_witness:
  "rootPointer \<in> set (fold (step (nest 1))
      [Toggle [], Toggle [Idx 0], EnsureOpen [Idx 0, Idx 0], ExpandAll, Toggle [Idx 0], CollapseAll, Toggle []]
      [rootPointer]) \<and>
   toggle [] [rootPointer, js ''/0''] = Some [js ''/0'', rootPointer]"
proof -
  have "toggle [] [rootPointer, js ''/0''] = Some [js ''/0'', rootPointer]"
    by (simp add: toggle_def pointerFromSegments_Nil setAdd_def setDelete_def rootPointer_def js_def)
  with root_always_expanded [of "nest 1"
      "[Toggle [], Toggle [Idx 0], EnsureOpen [Idx 0, Idx 0], ExpandAll, Toggle [Idx 0], CollapseAll, Toggle []]"
      "[rootPointer, js ''/0'']"]
  show ?thesis by simp
qed

section \<open>Properties of the SearchMatcher\<close>

lemma push_take: "push mx m out = out @ take (mx - length out) [m]"
  by (simp add: push_def)

lemma take_take_append:
  "take n xs @ take (n - length (take n xs)) ys = take n (xs @ ys)"
  by (cases "length xs \<le> n") (simp_all add: min_def)

lemma visitLeaf_take:
  "visitLeaf h q mx node str p out = out @ take (mx - length out) (leafMatches h q node str p)"
  by (simp add: visitLeaf_def leafMatches_def push_take)

lemma visit_take:
  fixes v :: "'n json" and xs :: "'n json list" and kvs :: "(jsstring \<times> 'n json) list"
  shows "visit h q mx v p out = out @ take (mx - length out) (allMatches h q v p)"
    and "visitArray h q mx xs i p out = out @ take (mx - length out) (arrayMatches h q xs i p)"
    and "visitObject h q mx kvs p out = out @ take (mx - length out) (objectMatches h q kvs p)"
proof (induction h q mx v p out and h q mx xs i p out and h q mx kvs p out
    rule: visit_visitArray_visitObject.induct)
  case (8 h q mx x xs i p out)
  let ?A = "allMatches h q x (pathJoin p (Idx i))"
  let ?B = "arrayMatches h q xs (i + 1) p"
  let ?n = "mx - length out"
  have "visitArray h q mx (x # xs) i p out =
      (out @ take ?n ?A) @ take (mx - length (out @ take ?n ?A)) ?B"
    using 8 by simp
  also have "mx - length (out @ take ?n ?A) = ?n - length (take ?n ?A)" by simp
  finally show ?case by (simp only: append_assoc take_take_append arrayMatches.simps)
next
  case (10 h q mx k v kvs p out)
  let ?K = "keyMatches h q k p"
  let ?V = "allMatches h q v (pathJoin p (Key k))"
  let ?R = "objectMatches h q kvs p"
  let ?n = "mx - length out"
  define out1 where "out1 = (if includesStr (toLowerCase h k) q
      then push mx \<lparr>path = pathJoin p (Key k), kind = KeyMatch, preview = k\<rparr> out else out)"
  define out2 where "out2 = visit h q mx v (pathJoin p (Key k)) out1"
  have o1: "out1 = out @ take ?n ?K"
    by (simp add: out1_def keyMatches_def push_take)
  have "out2 = out1 @ take (mx - length out1) ?V"
    unfolding out2_def using "10.IH"(1) [OF out1_def] .
  also have "mx - length out1 = ?n - length (take ?n ?K)" by (simp add: o1)
  finally have o2: "out2 = out @ take ?n (?K @ ?V)"
    by (simp only: o1 append_assoc take_take_append)
  have unfold: "visitObject h q mx ((k, v) # kvs) p out =
      (if mx \<le> length out2 then out2 else visitObject h q mx kvs p out2)"
    by (simp add: out1_def out2_def Let_def)
  have goal: "objectMatches h q ((k, v) # kvs) p = ?K @ ?V @ ?R"
    by simp
  show ?case
  proof (cases "mx \<le> length out2")
    case True
    moreover have "length out2 = length out + min (length (?K @ ?V)) ?n"
      by (simp only: o2 length_append length_take)
    ultimately have "?n \<le> length (?K @ ?V)" by linarith
    then have t: "take ?n ((?K @ ?V) @ ?R) = take ?n (?K @ ?V)"
      by simp
    have "visitObject h q mx ((k, v) # kvs) p out = out2"
      using unfold True by (simp only: if_True)
    also have "\<dots> = out @ take ?n ((?K @ ?V) @ ?R)"
      by (simp only: o2 t)
    finally show ?thesis by (simp only: goal append_assoc)
  next
    case False
    have "visitObject h q mx kvs p out2 = out2 @ take (mx - length out2) ?R"
      using "10.IH"(2) [OF out1_def out2_def False] .
    also have "mx - length out2 = ?n - length (take ?n (?K @ ?V))" by (simp add: o2)
    finally have r: "visitObject h q mx kvs p out2 = out @ take ?n ((?K @ ?V) @ ?R)"
      by (simp only: o2 append_assoc take_take_append)
    have "visitObject h q mx ((k, v) # kvs) p out = visitObject h q mx kvs p out2"
      using unfold False by (simp only: if_False)
    also note r
    finally show ?thesis by (simp only: goal append_assoc)
  qed
qed (simp_all add: visitLeaf_take)

lemma findMatches_take:
  "findMatches h root queryRaw mx =
     (if toLowerCase h (trim queryRaw) = [] then []
      else take mx (allMatches h (toLowerCase h (trim queryRaw)) root []))"
  by (simp add: findMatches_def Let_def visit_take(1))






lemmas search_eval =
  findMatches_def Let_def demoHost_def asciiLower_def trim_def isWhiteSpace_def js_def
  visitLeaf_def push_def pathJoin.simps isIdentifier_def isIdentStart_def isIdentPart_def
  escapeQuotes_def decimal.simps digitChar_def




text \<open>
  Claim C5. For a query that is not blank, \<open>findMatches\<close> returns the first \<open>maxMatches\<close>
  of the matches of the specification, in pre-order: a key match for every object key, at
  every depth, whose lower-cased text contains the lower-cased, trimmed query, and a value
  match for every string, number or boolean whose lower-cased text contains it; null never
  matches, and an array or an object is never matched as a value. On the document
  \<open>{"a": {"bob": 1}, "list": [1, 2, "bob"]}\<close> the query \<open>bob\<close> finds the key match at
  \<open>a.bob\<close> and the value match at \<open>list[2]\<close>, both with the preview \<open>bob\<close>, and nothing
  else.
\<close>

theorem findMatches_scope:
  fixes root :: "'n json"
  shows "findMatches h root queryRaw mx =
           (if toLowerCase h (trim queryRaw) = [] then []
            else take mx (allMatches h (toLowerCase h (trim queryRaw)) root [])) \<and>
         visit h q mx JNull p out = out \<and>
         findMatches demoHost exampleDoc (js ''bob'') 200 =
           [\<lparr>path = js ''a.bob'', kind = KeyMatch, preview = js ''bob''\<rparr>,
            \<lparr>path = js ''list[2]'', kind = ValueMatch, preview = js ''bob''\<rparr>]"
proof (intro conjI)
  show "findMatches h root queryRaw mx =
           (if toLowerCase h (trim queryRaw) = [] then []
            else take mx (allMatches h (toLowerCase h (trim queryRaw)) root []))"
    by (rule findMatches_take)
  show "visit h q mx JNull p out = out" by simp
  show "findMatches demoHost exampleDoc (js ''bob'') 200 =
           [\<lparr>path = js ''a.bob'', kind = KeyMatch, preview = js ''bob''\<rparr>,
            \<lparr>path = js ''list[2]'', kind = ValueMatch, preview = js ''bob''\<rparr>]"
    by (simp add: exampleDoc_def search_eval)
qed

theorem findMatches_scope_witness:
  "findMatches demoHost exampleDoc (js '' BoB '') 1 =
     [\<lparr>path = js ''a.bob'', kind = KeyMatch, preview = js ''bob''\<rparr>] \<and>
   findMatches demoHost (JObj [(js ''null'', JNull), (js ''x y'', JArr [JBool True, JStr (js ''Null'')])])
       (js ''null'') 200 =
     [\<lparr>path = js ''null'', kind = KeyMatch, preview = js ''null''\<rparr>,
      \<lparr>path = [0x5B, 0x22] @ js ''x y'' @ [0x22, 0x5D] @ js ''[1]'', kind = ValueMatch, preview = js ''Null''\<rparr>]"
proof -
  have q1: "toLowerCase demoHost (trim (js '' BoB '')) = js ''bob''"
    by (simp add: search_eval)
  have q2: "toLowerCase demoHost (trim (js ''null'')) = js ''null''"
    by (simp add: search_eval)
  have a1: "allMatches demoHost (js ''bob'') exampleDoc [] =
     [\<lparr>path = js ''a.bob'', kind = KeyMatch, preview = js ''bob''\<rparr>,
      \<lparr>path = js ''list[2]'', kind = ValueMatch, preview = js ''bob''\<rparr>]"
    by (simp add: exampleDoc_def keyMatches_def leafMatches_def search_eval)
  have a2: "allMatches demoHost (js ''null'')
      (JObj [(js ''null'', JNull), (js ''x y'', JArr [JBool True, JStr (js ''Null'')])]) [] =
     [\<lparr>path = js ''null'', kind = KeyMatch, preview = js ''null''\<rparr>,
      \<lparr>path = [0x5B, 0x22] @ js ''x y'' @ [0x22, 0x5D] @ js ''[1]'', kind = ValueMatch, preview = js ''Null''\<rparr>]"
    by (simp add: keyMatches_def leafMatches_def search_eval)
  from findMatches_scope [of demoHost exampleDoc "js '' BoB ''" 1, THEN conjunct1]
    findMatches_scope [of demoHost
      "JObj [(js ''null'', JNull), (js ''x y'', JArr [JBool True, JStr (js ''Null'')])]"
      "js ''null''" 200, THEN conjunct1]
  show ?thesis
    unfolding q1 q2 a1 a2 by (simp add: js_def)
qed

end
